theory Spec2Isabelle
  imports Main "HOL-Library.Sublist"
begin

section \<open>Regular expressions: Python's \<open>re\<close>, in part a parameter\<close>

text \<open>
  \<open>extract_domains\<close> hands \<open>".*" + value_ + ".*"\<close> to \<open>re.compile\<close>, so the configured
  string is read as a regular expression. The patterns built from ordinary characters,
  the dot (any character but a newline) and the postfix star are modelled here: a star
  with nothing to repeat, or one that follows another star, makes \<open>re.compile\<close> raise
  \<open>re.error\<close>. For a pattern that uses any other special character of \<open>re\<close> the model
  asks the library, a parameter: it answers \<open>None\<close> where \<open>re.compile\<close> raises \<open>re.error\<close>,
  and otherwise gives the compiled pattern as the texts its \<open>search\<close> finds a match in.
\<close>

datatype error = KeyError | AttributeError | ReError

datatype atom = Lit char | Dot

datatype piece = Once atom | Star atom

datatype pattern = Fragment "piece list" | Other "string \<Rightarrow> bool"

type_synonym re_library = "string \<Rightarrow> (string \<Rightarrow> bool) option"

definition special :: "char \<Rightarrow> bool" where
  "special c = (c \<in> set ''.^$*+?{}[]|()'' \<or> c = CHR 0x5C)"

definition atom_of :: "char \<Rightarrow> atom" where
  "atom_of c = (if c = CHR ''.'' then Dot else Lit c)"

definition unmodelled :: "char \<Rightarrow> bool" where
  "unmodelled c = (special c \<and> c \<noteq> CHR ''.'' \<and> c \<noteq> CHR ''*'')"

definition attach :: "piece \<Rightarrow> error + piece list \<Rightarrow> error + piece list" where
  "attach p r = (case r of Inl e \<Rightarrow> Inl e | Inr ps \<Rightarrow> Inr (p # ps))"

text \<open>A pattern of ordinary characters, dots and stars, read from left to right.\<close>

fun compile_fragment :: "string \<Rightarrow> error + piece list" where
  "compile_fragment [] = Inr []"
| "compile_fragment [c] =
     (if c = CHR ''*'' then Inl ReError else Inr [Once (atom_of c)])"
| "compile_fragment (c # d # cs) =
     (if c = CHR ''*'' then Inl ReError
      else if d = CHR ''*'' then attach (Star (atom_of c)) (compile_fragment cs)
      else attach (Once (atom_of c)) (compile_fragment (d # cs)))"

definition re_compile :: "re_library \<Rightarrow> string \<Rightarrow> error + pattern" where
  "re_compile lib s =
     (if list_all (\<lambda>c. \<not> unmodelled c) s
      then (case compile_fragment s of Inl e \<Rightarrow> Inl e | Inr ps \<Rightarrow> Inr (Fragment ps))
      else (case lib s of None \<Rightarrow> Inl ReError | Some f \<Rightarrow> Inr (Other f)))"

fun atom_ok :: "atom \<Rightarrow> char \<Rightarrow> bool" where
  "atom_ok (Lit c) x = (x = c)"
| "atom_ok Dot x = (x \<noteq> CHR 0x0A)"

text \<open>\<open>match_here ps s\<close>: the pieces match some prefix of \<open>s\<close>.\<close>

fun match_here :: "piece list \<Rightarrow> string \<Rightarrow> bool" where
  "match_here [] s = True"
| "match_here (Once a # ps) [] = False"
| "match_here (Once a # ps) (x # xs) = (atom_ok a x \<and> match_here ps xs)"
| "match_here (Star a # ps) [] = match_here ps []"
| "match_here (Star a # ps) (x # xs) =
     (match_here ps (x # xs) \<or> (atom_ok a x \<and> match_here (Star a # ps) xs))"

text \<open>\<open>pattern.search(s)\<close> finds a match starting at any position of \<open>s\<close>.\<close>

fun re_search :: "pattern \<Rightarrow> string \<Rightarrow> bool" where
  "re_search (Fragment ps) s = list_ex (\<lambda>i. match_here ps (drop i s)) [0 ..< Suc (length s)]"
| "re_search (Other f) s = f s"


section \<open>The document tree and the three searches of the markup parser\<close>

text \<open>
  A parsed page: a tag carries the values of its \<open>class\<close> attribute, its \<open>id\<close>
  attribute if it has one, and its children; a string node carries its text.
  \<open>descendants\<close> lists the nodes below a node in document order, and \<open>find\<close> returns
  the first of them that matches.
\<close>

datatype node = Tag "string list" "string option" "node list" | NavigableString string

fun descendants :: "node \<Rightarrow> node list" where
  "descendants (Tag cls i kids) = concat (map (\<lambda>k. k # descendants k) kids)"
| "descendants (NavigableString s) = []"

fun join_spaces :: "string list \<Rightarrow> string" where
  "join_spaces [] = []"
| "join_spaces [x] = x"
| "join_spaces (x # y # ys) = x @ '' '' @ join_spaces (y # ys)"

fun has_class :: "string \<Rightarrow> node \<Rightarrow> bool" where
  "has_class c (Tag cls i kids) = (c \<in> set cls \<or> join_spaces cls = c)"
| "has_class c (NavigableString s) = False"

fun has_id :: "string \<Rightarrow> node \<Rightarrow> bool" where
  "has_id v (Tag cls i kids) = (i = Some v)"
| "has_id v (NavigableString s) = False"

fun text_matches :: "pattern \<Rightarrow> node \<Rightarrow> bool" where
  "text_matches p (Tag cls i kids) = False"
| "text_matches p (NavigableString s) = re_search p s"

definition find_class :: "string \<Rightarrow> node \<Rightarrow> node option" where
  "find_class c soup = List.find (has_class c) (descendants soup)"

definition find_id :: "string \<Rightarrow> node \<Rightarrow> node option" where
  "find_id v soup = List.find (has_id v) (descendants soup)"

definition find_text :: "pattern \<Rightarrow> node \<Rightarrow> node option" where
  "find_text p soup = List.find (text_matches p) (descendants soup)"


section \<open>Domains and their construction\<close>

text \<open>
  The fields \<open>class_\<close>, \<open>id_\<close> and \<open>value_\<close> of the source are written with a prime.
  After conversion \<open>value'\<close> holds the compiled pattern.
\<close>

record Domain =
  class' :: "string option"
  id' :: "string option"
  value' :: "pattern option"

type_synonym raw_record = "(string \<times> string option) list"

text \<open>An entry of the domain dictionary: a raw record of pages.json, or a \<open>Domain\<close>.\<close>

datatype entry = Raw raw_record | Converted Domain

definition subscript :: "raw_record \<Rightarrow> string \<Rightarrow> error + string option" where
  "subscript val k = (case map_of val k of None \<Rightarrow> Inl KeyError | Some v \<Rightarrow> Inr v)"

text \<open>The body of the \<open>try\<close> block of \<open>extract_domains\<close>.\<close>

definition convert :: "re_library \<Rightarrow> raw_record \<Rightarrow> error + Domain" where
  "convert lib val =
     (case subscript val ''class_'' of Inl e \<Rightarrow> Inl e | Inr c \<Rightarrow>
       (case subscript val ''id_'' of Inl e \<Rightarrow> Inl e | Inr i \<Rightarrow>
         (case subscript val ''value_'' of Inl e \<Rightarrow> Inl e | Inr v \<Rightarrow>
           (case v of
              None \<Rightarrow> Inr \<lparr>class' = c, id' = i, value' = None\<rparr>
            | Some raw \<Rightarrow>
                (case re_compile lib (''.*'' @ raw @ ''.*'') of
                   Inl e \<Rightarrow> Inl e
                 | Inr p \<Rightarrow> Inr \<lparr>class' = c, id' = i, value' = Some p\<rparr>)))))"

definition formatting_error :: string where
  "formatting_error = ''Domain formatting error in pages.json.''"

text \<open>
  The dictionary is an association list in insertion order. The loop rebinds the key
  it is at, or prints and leaves it alone on \<open>KeyError\<close>; any other exception leaves
  the function. The result is the dictionary and what was printed.
\<close>

fun extract_domains ::
  "re_library \<Rightarrow> (string \<times> raw_record) list \<Rightarrow>
     error + ((string \<times> entry) list \<times> string list)" where
  "extract_domains lib [] = Inr ([], [])"
| "extract_domains lib ((key, val) # rest) =
     (case convert lib val of
        Inl KeyError \<Rightarrow>
          (case extract_domains lib rest of
             Inl e \<Rightarrow> Inl e
           | Inr (ds, out) \<Rightarrow> Inr ((key, Raw val) # ds, formatting_error # out))
      | Inl e \<Rightarrow> Inl e
      | Inr d \<Rightarrow>
          (case extract_domains lib rest of
             Inl e \<Rightarrow> Inl e
           | Inr (ds, out) \<Rightarrow> Inr ((key, Converted d) # ds, out)))"


section \<open>check\_stock\<close>

definition truthy :: "string option \<Rightarrow> bool" where
  "truthy s = (case s of None \<Rightarrow> False | Some v \<Rightarrow> v \<noteq> [])"

definition not_provided :: "string \<Rightarrow> string" where
  "not_provided domain_name = ''Search information for domain: '' @ domain_name @ '' not provided.''"

definition must_provide :: "string \<Rightarrow> string" where
  "must_provide domain_name =
     ''You must provide at least one class, id, or string value to search for on '' @ domain_name"

text \<open>
  \<open>soup\<close> is the tree the parser built from the loaded page and \<open>domain_name\<close> the
  network location of the link; both come from libraries and are inputs here.
  A tag is always true in a condition, so after narrowing only \<open>None\<close> is false.
\<close>

definition narrow :: "Domain \<Rightarrow> node \<Rightarrow> node option" where
  "narrow d soup =
     (if truthy (class' d) then (case class' d of Some c \<Rightarrow> find_class c soup | None \<Rightarrow> Some soup)
      else if truthy (id' d) then (case id' d of Some v \<Rightarrow> find_id v soup | None \<Rightarrow> Some soup)
      else Some soup)"

definition search_value :: "Domain \<Rightarrow> node option \<Rightarrow> node option" where
  "search_value d scope =
     (case scope of
        None \<Rightarrow> None
      | Some n \<Rightarrow> (case value' d of None \<Rightarrow> Some n | Some p \<Rightarrow> find_text p n))"

definition check_stock ::
  "(string \<times> entry) list \<Rightarrow> string \<Rightarrow> node \<Rightarrow> error + (bool \<times> string list)" where
  "check_stock domains domain_name soup =
     (case map_of domains domain_name of
        None \<Rightarrow> Inr (False, [not_provided domain_name])
      | Some (Raw r) \<Rightarrow>
          (if r = [] then Inr (False, [not_provided domain_name]) else Inl AttributeError)
      | Some (Converted d) \<Rightarrow>
          (if \<not> (truthy (class' d) \<or> truthy (id' d) \<or> value' d \<noteq> None)
           then Inr (False, [must_provide domain_name])
           else Inr (search_value d (narrow d soup) \<noteq> None, [])))"


section \<open>get\_loaded\_page\<close>

text \<open>
  The render session after navigation: \<open>driver n\<close> is the page as the browser shows it
  at the \<open>n\<close>-th query, its inner markup and its page source. \<open>hash\<close> is Python's hash
  of the encoded markup, an arbitrary function here. The two hash variables start as
  the strings \<open>"empty"\<close> and \<open>""\<close> and hold integers afterwards.

  \<open>poll\<close> is the \<open>while\<close> loop; \<open>n\<close> counts the reads made so far, and the loop returns
  that count. Each pass reads the page twice, before and after the sleep. The loop has
  no bound, so a run that never leaves it is the value \<open>None\<close>.
\<close>

datatype hash_var = Str string | Hash int

record page =
  innerHTML :: string
  page_source :: string

definition get_page_hash :: "(string \<Rightarrow> int) \<Rightarrow> (nat \<Rightarrow> page) \<Rightarrow> nat \<Rightarrow> hash_var" where
  "get_page_hash hash driver n = Hash (hash (innerHTML (driver n)))"

partial_function (option) poll ::
  "(string \<Rightarrow> int) \<Rightarrow> (nat \<Rightarrow> page) \<Rightarrow> hash_var \<Rightarrow> hash_var \<Rightarrow> nat \<Rightarrow> nat option" where
  "poll hash driver page_hash page_hash_new n =
     (if page_hash \<noteq> page_hash_new
      then poll hash driver (get_page_hash hash driver n) (get_page_hash hash driver (Suc n)) (Suc (Suc n))
      else Some n)"

definition get_loaded_page :: "(string \<Rightarrow> int) \<Rightarrow> (nat \<Rightarrow> page) \<Rightarrow> string option" where
  "get_loaded_page hash driver =
     (case poll hash driver (Str ''empty'') (Str []) 0 of
        None \<Rightarrow> None
      | Some n \<Rightarrow> Some (page_source (driver n)))"

text \<open>The pair of reads of pass \<open>k\<close> (counted from 0) has equal hashes.\<close>

definition stable_at :: "(string \<Rightarrow> int) \<Rightarrow> (nat \<Rightarrow> page) \<Rightarrow> nat \<Rightarrow> bool" where
  "stable_at hash driver k =
     (hash (innerHTML (driver (2 * k))) = hash (innerHTML (driver (2 * k + 1))))"


section \<open>The sweep loop of main\<close>

text \<open>
  What the loop does to the outside, in order. \<open>check k link\<close> is the verdict of the
  \<open>k\<close>-th call of \<open>check_stock\<close>; \<open>main_loop\<close> runs \<open>n\<close> passes of \<open>while True\<close>.
\<close>

datatype event = CheckStock string | SendNotification string string | Print string | DeleteCookies

definition in_stock :: "string \<Rightarrow> string" where
  "in_stock link = CHR 0x1B # ''[92mIN STOCK: '' @ link"

definition out_of_stock :: "string \<Rightarrow> string" where
  "out_of_stock link = CHR 0x1B # ''[91mOut of Stock: '' @ link"

fun for_links ::
  "(nat \<Rightarrow> string \<Rightarrow> bool) \<Rightarrow> string list \<Rightarrow> nat \<times> event list \<Rightarrow> nat \<times> event list" where
  "for_links check [] st = st"
| "for_links check (link # links) (k, tr) =
     for_links check links
       (Suc k,
        tr @ CheckStock link #
          (if check k link then [SendNotification ''Stock Alert'' link, Print (in_stock link)]
           else [Print (out_of_stock link)]))"

fun main_loop ::
  "(nat \<Rightarrow> string \<Rightarrow> bool) \<Rightarrow> string list \<Rightarrow> nat \<Rightarrow> nat \<times> event list \<Rightarrow> nat \<times> event list" where
  "main_loop check links 0 st = st"
| "main_loop check links (Suc n) st =
     main_loop check links n
       (case for_links check links st of (k, tr) \<Rightarrow> (k, tr @ [DeleteCookies]))"

fun uses_session :: "event \<Rightarrow> bool" where
  "uses_session (CheckStock link) = True"
| "uses_session DeleteCookies = True"
| "uses_session (SendNotification subject body) = False"
| "uses_session (Print s) = False"


section \<open>Predicates and sample inputs used in the statements\<close>

text \<open>A raw record has the three field names the conversion subscripts.\<close>

definition has_fields :: "raw_record \<Rightarrow> bool" where
  "has_fields val =
     (map_of val ''class_'' \<noteq> None \<and> map_of val ''id_'' \<noteq> None \<and> map_of val ''value_'' \<noteq> None)"

text \<open>The \<open>try\<close> block ends normally or with \<open>KeyError\<close>: \<open>re.compile\<close> did not reject the value.\<close>

definition compiles :: "re_library \<Rightarrow> raw_record \<Rightarrow> bool" where
  "compiles lib val =
     (case convert lib val of Inl KeyError \<Rightarrow> True | Inl e \<Rightarrow> False | Inr d \<Rightarrow> True)"

text \<open>What one pass of the loop leaves bound to the key it is at.\<close>

definition rebind :: "re_library \<Rightarrow> string \<times> raw_record \<Rightarrow> string \<times> entry" where
  "rebind lib kv =
     (fst kv, case convert lib (snd kv) of Inr d \<Rightarrow> Converted d | Inl e \<Rightarrow> Raw (snd kv))"

text \<open>
  The sample values below stay inside the modelled patterns, so the library is never
  asked about them; the sample library answers \<open>None\<close> throughout.
\<close>

definition unused_library :: re_library where
  "unused_library s = None"

definition sold_pattern :: pattern where
  "sold_pattern =
     Fragment
       [Star Dot, Once (Lit CHR ''S''), Once (Lit CHR ''O''), Once (Lit CHR ''L''),
        Once (Lit CHR ''D''), Star Dot]"

definition price_sold :: Domain where
  "price_sold = \<lparr>class' = Some ''price'', id' = None, value' = Some sold_pattern\<rparr>"

definition two_prices :: node where
  "two_prices =
     Tag [] None
       [Tag [''price''] None [NavigableString ''10''],
        Tag [''price''] None [NavigableString ''SOLD'']]"

definition sold_elsewhere :: node where
  "sold_elsewhere = Tag [] None [Tag [''title''] None [NavigableString ''SOLD'']]"

text \<open>Two raw configurations: a record with wrong field names, and a value that is not a
  regular expression.\<close>

definition wrong_names :: raw_record where
  "wrong_names = [(''class'', Some ''stock''), (''id'', None), (''value'', None)]"

definition stock_class :: raw_record where
  "stock_class = [(''class_'', Some ''stock''), (''id_'', None), (''value_'', None)]"

definition star_value :: raw_record where
  "star_value = [(''class_'', None), (''id_'', None), (''value_'', Some ''*'')]"

text \<open>A hash for the sample sessions; it tells their pages apart.\<close>

definition length_hash :: "string \<Rightarrow> int" where
  "length_hash s = int (length s)"

definition page_of :: "string \<Rightarrow> page" where
  "page_of s = \<lparr>innerHTML = s, page_source = ''<html>'' @ s @ ''</html>''\<rparr>"

text \<open>Reads \<open>loading, In Stock, In Stock\<close> and then \<open>Sold Out!\<close> for good.\<close>

definition session_ABBC :: "nat \<Rightarrow> page" where
  "session_ABBC n =
     (if n = 0 then page_of ''loading''
      else if n \<le> 2 then page_of ''In Stock''
      else page_of ''Sold Out!'')"

text \<open>Reads \<open>loading\<close> once and \<open>In Stock\<close> from then on.\<close>

definition session_ABBB :: "nat \<Rightarrow> page" where
  "session_ABBB n = (if n = 0 then page_of ''loading'' else page_of ''In Stock'')"

text \<open>Reads \<open>In Stock\<close> from the first read on.\<close>

definition session_settled :: "nat \<Rightarrow> page" where
  "session_settled n = page_of ''In Stock''"

text \<open>A page that never settles: every read is one character longer than the last.\<close>

definition session_growing :: "nat \<Rightarrow> page" where
  "session_growing n = page_of (replicate n CHR ''x'')"


section \<open>Facts about the pattern fragment\<close>

text \<open>
  A value without special characters compiles to a run of literal characters between
  two dot-stars, and searching with that pattern is searching for the value as a
  contiguous part of the text.
\<close>

lemma compile_lits_tail:
  "\<forall>c\<in>set raw. \<not> special c \<Longrightarrow>
   compile_fragment (raw @ ''.*'') = Inr (map (\<lambda>c. Once (Lit c)) raw @ [Star Dot])"
proof (induction raw)
  case Nil
  show ?case by (simp add: attach_def atom_of_def)
next
  case (Cons c cs)
  have c: "\<not> special c" using Cons.prems by simp
  then have c1: "c \<noteq> CHR ''*''" "c \<noteq> CHR ''.''"
    by (auto simp: special_def)
  obtain d rest where dr: "cs @ ''.*'' = d # rest" by (cases "cs @ ''.*''") auto
  have d: "d \<noteq> CHR ''*''"
  proof (cases cs)
    case Nil
    with dr show ?thesis by auto
  next
    case (Cons e es)
    with dr have "d = e" by simp
    moreover have "\<not> special e" using Cons.prems \<open>cs = e # es\<close> by simp
    ultimately show ?thesis by (auto simp: special_def)
  qed
  have "compile_fragment ((c # cs) @ ''.*'') = compile_fragment (c # d # rest)" using dr by simp
  also have "\<dots> = attach (Once (atom_of c)) (compile_fragment (d # rest))"
    using c1 d by simp
  also have "\<dots> = attach (Once (Lit c)) (compile_fragment (cs @ ''.*''))"
    using c1 dr by (simp add: atom_of_def)
  also have "\<dots> = Inr (map (\<lambda>c. Once (Lit c)) (c # cs) @ [Star Dot])"
    using Cons.IH Cons.prems by (simp add: attach_def)
  finally show ?case .
qed

lemma wrapped_in_fragment:
  assumes "\<forall>c\<in>set raw. \<not> special c"
  shows "list_all (\<lambda>c. \<not> unmodelled c) (''.*'' @ raw @ ''.*'')"
  using assms by (auto simp: list_all_iff unmodelled_def)

lemma compile_wrapped:
  assumes "\<forall>c\<in>set raw. \<not> special c"
  shows "re_compile lib (''.*'' @ raw @ ''.*'')
           = Inr (Fragment (Star Dot # map (\<lambda>c. Once (Lit c)) raw @ [Star Dot]))"
proof -
  have "compile_fragment (''.*'' @ raw @ ''.*'') = attach (Star Dot) (compile_fragment (raw @ ''.*''))"
    by (simp add: atom_of_def)
  then have "compile_fragment (''.*'' @ raw @ ''.*'')
      = Inr (Star Dot # map (\<lambda>c. Once (Lit c)) raw @ [Star Dot])"
    using compile_lits_tail [OF assms] by (simp add: attach_def)
  then show ?thesis
    using wrapped_in_fragment [OF assms] by (simp only: re_compile_def if_True sum.case)
qed

lemma match_lits:
  "match_here (map (\<lambda>c. Once (Lit c)) w @ q) s \<longleftrightarrow> (\<exists>r. s = w @ r \<and> match_here q r)"
proof (induction w arbitrary: s)
  case Nil
  show ?case by simp
next
  case (Cons c cs)
  show ?case by (cases s) (auto simp: Cons.IH)
qed

lemma match_star_only: "match_here [Star a] s"
  by (cases s) simp_all

lemma match_star_skip: "match_here q s \<Longrightarrow> match_here (Star a # q) s"
  by (cases s) simp_all

lemma match_star_drop: "match_here (Star a # q) s \<Longrightarrow> \<exists>i\<le>length s. match_here q (drop i s)"
proof (induction s)
  case Nil
  then show ?case by simp
next
  case (Cons x xs)
  from Cons.prems have "match_here q (x # xs) \<or> match_here (Star a # q) xs" by auto
  then show ?case
  proof
    assume "match_here q (x # xs)"
    then have "match_here q (drop 0 (x # xs))" by simp
    then show ?thesis by blast
  next
    assume "match_here (Star a # q) xs"
    then obtain i where "i \<le> length xs" "match_here q (drop i xs)" using Cons.IH by blast
    then have "Suc i \<le> length (x # xs)" "match_here q (drop (Suc i) (x # xs))" by simp_all
    then show ?thesis by blast
  qed
qed

lemma re_search_iff:
  "re_search (Fragment ps) s \<longleftrightarrow> (\<exists>i\<le>length s. match_here ps (drop i s))"
  by (auto simp del: upt_Suc simp add: list_ex_iff less_Suc_eq_le)

lemma search_contains:
  "re_search (Fragment (Star Dot # map (\<lambda>c. Once (Lit c)) w @ [Star Dot])) t \<longleftrightarrow> sublist w t"
proof
  assume "re_search (Fragment (Star Dot # map (\<lambda>c. Once (Lit c)) w @ [Star Dot])) t"
  then obtain i where "match_here (Star Dot # map (\<lambda>c. Once (Lit c)) w @ [Star Dot]) (drop i t)"
    unfolding re_search_iff by blast
  then obtain j where "match_here (map (\<lambda>c. Once (Lit c)) w @ [Star Dot]) (drop j (drop i t))"
    using match_star_drop by blast
  then obtain r where "drop j (drop i t) = w @ r" by (auto simp: match_lits)
  then have "t = take (i + j) t @ w @ r"
    by (metis add.commute append_take_drop_id drop_drop)
  then show "sublist w t" unfolding sublist_def by blast
next
  assume "sublist w t"
  then obtain ps ss where t: "t = ps @ w @ ss" unfolding sublist_def by blast
  have "match_here (map (\<lambda>c. Once (Lit c)) w @ [Star Dot]) (w @ ss)"
    by (simp add: match_lits match_star_only)
  then have "match_here (Star Dot # map (\<lambda>c. Once (Lit c)) w @ [Star Dot]) (drop (length ps) t)"
    using t by (simp add: match_star_skip)
  moreover have "length ps \<le> length t" using t by simp
  ultimately show "re_search (Fragment (Star Dot # map (\<lambda>c. Once (Lit c)) w @ [Star Dot])) t"
    unfolding re_search_iff by blast
qed


section \<open>Facts about the searches and about check\_stock\<close>

lemma find_text_iff:
  "find_text p n \<noteq> None \<longleftrightarrow> (\<exists>s. NavigableString s \<in> set (descendants n) \<and> re_search p s)"
proof -
  have "find_text p n \<noteq> None \<longleftrightarrow> (\<exists>x\<in>set (descendants n). text_matches p x)"
    by (auto simp: find_text_def find_None_iff)
  also have "\<dots> \<longleftrightarrow> (\<exists>s. NavigableString s \<in> set (descendants n) \<and> re_search p s)"
  proof
    assume "\<exists>x\<in>set (descendants n). text_matches p x"
    then obtain x where x: "x \<in> set (descendants n)" "text_matches p x" by blast
    show "\<exists>s. NavigableString s \<in> set (descendants n) \<and> re_search p s"
    proof (cases x)
      case (Tag cls i kids)
      with x show ?thesis by simp
    next
      case (NavigableString s)
      with x show ?thesis by auto
    qed
  next
    assume "\<exists>s. NavigableString s \<in> set (descendants n) \<and> re_search p s"
    then show "\<exists>x\<in>set (descendants n). text_matches p x" by force
  qed
  finally show ?thesis .
qed

lemma narrow_class: "class' d = Some c \<Longrightarrow> c \<noteq> [] \<Longrightarrow> narrow d soup = find_class c soup"
  by (simp add: narrow_def truthy_def)

lemma check_stock_class:
  assumes "map_of domains domain_name = Some (Converted d)" "class' d = Some c" "c \<noteq> []"
  shows "check_stock domains domain_name soup = Inr (search_value d (find_class c soup) \<noteq> None, [])"
  using assms by (simp add: check_stock_def narrow_class truthy_def)


section \<open>Facts about the polling loop\<close>

text \<open>
  Pass \<open>k\<close> of the loop reads the page at queries \<open>2k\<close> and \<open>2k + 1\<close>. The loop returns at
  the first pass whose two reads hash alike, and a run that returns has such a pass.
\<close>

lemma poll_start:
  "poll hash driver (Str ''empty'') (Str []) 0 =
     poll hash driver (get_page_hash hash driver 0) (get_page_hash hash driver (Suc 0)) (Suc (Suc 0))"
  by (subst poll.simps) simp

lemma pass_unfold:
  "poll hash driver (get_page_hash hash driver (2 * k)) (get_page_hash hash driver (Suc (2 * k)))
       (Suc (Suc (2 * k))) =
     (if stable_at hash driver k then Some (Suc (Suc (2 * k)))
      else poll hash driver (get_page_hash hash driver (2 * Suc k))
             (get_page_hash hash driver (Suc (2 * Suc k))) (Suc (Suc (2 * Suc k))))"
  by (subst poll.simps) (simp add: get_page_hash_def stable_at_def)

lemma pass_reaches:
  assumes "stable_at hash driver k" "\<forall>j<k. \<not> stable_at hash driver j" "i \<le> k"
  shows "poll hash driver (get_page_hash hash driver (2 * i)) (get_page_hash hash driver (Suc (2 * i)))
           (Suc (Suc (2 * i))) = Some (Suc (Suc (2 * k)))"
  using assms(3)
proof (induction "k - i" arbitrary: i)
  case 0
  then have "i = k" by simp
  then show ?case using assms(1) by (subst pass_unfold) simp
next
  case (Suc m)
  then have lt: "i < k" and m: "m = k - Suc i" and le: "Suc i \<le> k" by simp_all
  have "\<not> stable_at hash driver i" using assms(2) lt by simp
  then have "poll hash driver (get_page_hash hash driver (2 * i)) (get_page_hash hash driver (Suc (2 * i)))
        (Suc (Suc (2 * i)))
      = poll hash driver (get_page_hash hash driver (2 * Suc i))
          (get_page_hash hash driver (Suc (2 * Suc i))) (Suc (Suc (2 * Suc i)))"
    by (subst pass_unfold) simp
  also have "\<dots> = Some (Suc (Suc (2 * k)))" using Suc.hyps(1) [OF m le] .
  finally show ?case .
qed

lemma poll_returns:
  assumes "stable_at hash driver k" "\<forall>j<k. \<not> stable_at hash driver j"
  shows "poll hash driver (Str ''empty'') (Str []) 0 = Some (2 * k + 2)"
  using pass_reaches [OF assms, of 0] by (simp add: poll_start)

lemma poll_Some_stable:
  assumes "poll hash driver ph phn n = Some r"
  shows "even n \<longrightarrow> ph = phn \<or> (\<exists>k. stable_at hash driver k)"
proof (rule poll.raw_induct
    [where P = "\<lambda>hash driver ph phn n r. even n \<longrightarrow> ph = phn \<or> (\<exists>k. stable_at hash driver k)",
     OF _ assms])
  fix poll' hash driver ph phn n r
  assume IH: "\<And>hash driver ph phn n r. poll' hash driver ph phn n = Some r \<Longrightarrow>
      even n \<longrightarrow> ph = phn \<or> (\<exists>k. stable_at hash driver k)"
    and step: "(if ph \<noteq> phn
          then poll' hash driver (get_page_hash hash driver n) (get_page_hash hash driver (Suc n))
                 (Suc (Suc n))
          else Some n) = Some r"
  show "even n \<longrightarrow> ph = phn \<or> (\<exists>k. stable_at hash driver k)"
  proof (intro impI)
    assume ev: "even n"
    show "ph = phn \<or> (\<exists>k. stable_at hash driver k)"
    proof (cases "ph = phn")
      case True
      then show ?thesis by simp
    next
      case False
      with step have rec: "poll' hash driver (get_page_hash hash driver n)
          (get_page_hash hash driver (Suc n)) (Suc (Suc n)) = Some r"
        by simp
      from IH [OF rec] ev
      have "get_page_hash hash driver n = get_page_hash hash driver (Suc n)
            \<or> (\<exists>k. stable_at hash driver k)" by simp
      moreover have "\<exists>k. stable_at hash driver k"
        if eq: "get_page_hash hash driver n = get_page_hash hash driver (Suc n)"
      proof -
        from ev obtain k where "n = 2 * k" by (auto elim: evenE)
        with eq have "stable_at hash driver k" by (simp add: get_page_hash_def stable_at_def)
        then show ?thesis ..
      qed
      ultimately show ?thesis by blast
    qed
  qed
qed

lemma poll_diverges:
  assumes "\<forall>k. \<not> stable_at hash driver k"
  shows "poll hash driver (Str ''empty'') (Str []) 0 = None"
proof (cases "poll hash driver (Str ''empty'') (Str []) 0")
  case None
  then show ?thesis .
next
  case (Some r)
  from poll_Some_stable [OF this] assms show ?thesis by simp
qed

lemma first_stable:
  assumes "stable_at hash driver k"
  shows "\<exists>m. stable_at hash driver m \<and> (\<forall>j<m. \<not> stable_at hash driver j)"
proof -
  let ?m = "LEAST m. stable_at hash driver m"
  have "stable_at hash driver ?m" using assms by (rule LeastI)
  moreover have "\<forall>j<?m. \<not> stable_at hash driver j" using not_less_Least by blast
  ultimately show ?thesis by blast
qed

lemma poll_result:
  assumes "poll hash driver (Str ''empty'') (Str []) 0 = Some r"
  shows "\<exists>k. stable_at hash driver k \<and> (\<forall>j<k. \<not> stable_at hash driver j) \<and> r = 2 * k + 2"
proof -
  from poll_Some_stable [OF assms] obtain k where "stable_at hash driver k" by auto
  from first_stable [OF this] obtain m where
    m: "stable_at hash driver m" "\<forall>j<m. \<not> stable_at hash driver j" by blast
  from poll_returns [OF m] assms have "r = 2 * m + 2" by simp
  with m show ?thesis by blast
qed


section \<open>Facts about extract\_domains\<close>

lemma compile_fragment_not_KeyError: "compile_fragment s \<noteq> Inl KeyError"
  by (induction s rule: compile_fragment.induct) (auto simp: attach_def split: sum.splits)

lemma re_compile_not_KeyError: "re_compile lib s \<noteq> Inl KeyError"
  using compile_fragment_not_KeyError [of s]
  by (auto simp: re_compile_def split: sum.splits option.splits)

lemma re_compile_error: "re_compile lib s = Inl e \<Longrightarrow> e = ReError"
proof -
  have "compile_fragment t = Inl e \<Longrightarrow> e = ReError" for t
    by (induction t rule: compile_fragment.induct) (auto simp: attach_def split: sum.splits if_splits)
  then show "re_compile lib s = Inl e \<Longrightarrow> e = ReError"
    by (auto simp: re_compile_def split: sum.splits option.splits if_splits)
qed

lemma convert_KeyError_iff: "convert lib val = Inl KeyError \<longleftrightarrow> \<not> has_fields val"
  using re_compile_not_KeyError
  by (auto simp add: convert_def subscript_def has_fields_def split: option.splits sum.splits)

lemma convert_fields:
  "convert lib val = Inr d \<Longrightarrow>
     map_of val ''class_'' = Some (class' d) \<and> map_of val ''id_'' = Some (id' d)
     \<and> (map_of val ''value_'' = Some None \<longleftrightarrow> value' d = None)"
  by (auto simp add: convert_def subscript_def split: option.splits sum.splits)

text \<open>
  \<open>compiles\<close> says what its name says: no value that the \<open>try\<close> block reaches is
  rejected by \<open>re.compile\<close>.
\<close>

lemma compiles_iff:
  "compiles lib val \<longleftrightarrow>
     \<not> (has_fields val
        \<and> (\<exists>raw. map_of val ''value_'' = Some (Some raw)
               \<and> re_compile lib (''.*'' @ raw @ ''.*'') = Inl ReError))"
proof (cases "convert lib val")
  case (Inr d)
  then have "has_fields val" using convert_KeyError_iff [of lib val] by auto
  moreover have "compiles lib val" using Inr by (simp add: compiles_def)
  moreover have "\<not> (\<exists>raw. map_of val ''value_'' = Some (Some raw)
               \<and> re_compile lib (''.*'' @ raw @ ''.*'') = Inl ReError)"
    using Inr by (auto simp add: convert_def subscript_def split: option.splits sum.splits)
  ultimately show ?thesis by blast
next
  case (Inl e)
  show ?thesis
  proof (cases "e = KeyError")
    case True
    with Inl have "\<not> has_fields val" using convert_KeyError_iff [of lib val] by simp
    moreover have "compiles lib val" using Inl True by (simp add: compiles_def)
    ultimately show ?thesis by blast
  next
    case False
    with Inl have hf: "has_fields val" using convert_KeyError_iff [of lib val] by auto
    have nc: "\<not> compiles lib val" using Inl False by (cases e) (simp_all add: compiles_def)
    from Inl hf obtain raw where "map_of val ''value_'' = Some (Some raw)"
        "re_compile lib (''.*'' @ raw @ ''.*'') = Inl e"
      by (auto simp add: convert_def subscript_def has_fields_def split: option.splits sum.splits)
    moreover from this(2) have "e = ReError" by (rule re_compile_error)
    ultimately show ?thesis using hf nc by blast
  qed
qed

text \<open>
  A value outside the modelled patterns that the library accepts is converted like any
  other; the entry then holds the pattern the library compiled.
\<close>

lemma plus_value_converted:
  assumes "lib ''.*a+b.*'' = Some f"
  shows "extract_domains lib [(key, [(''class_'', c), (''id_'', i), (''value_'', Some ''a+b'')])]
           = Inr ([(key, Converted \<lparr>class' = c, id' = i, value' = Some (Other f)\<rparr>)], [])"
  using assms by (simp add: convert_def subscript_def re_compile_def unmodelled_def special_def)

lemma extract_domains_shape:
  "extract_domains lib ds = Inr (res, out) \<longleftrightarrow>
     (\<forall>kv\<in>set ds. compiles lib (snd kv)) \<and> res = map (rebind lib) ds
     \<and> out = replicate (length (filter (\<lambda>kv. \<not> has_fields (snd kv)) ds)) formatting_error"
proof (induction ds arbitrary: res out)
  case Nil
  show ?case by auto
next
  case (Cons kv ds)
  obtain key val where kv: "kv = (key, val)" by (cases kv)
  show ?case
  proof (cases "convert lib val")
    case (Inr d)
    then have hf: "has_fields val" using convert_KeyError_iff [of lib val] by auto
    show ?thesis
    proof (cases "extract_domains lib ds")
      case (Inl e)
      with Inr kv hf Cons.IH show ?thesis by (auto simp: compiles_def rebind_def)
    next
      case (Inr r)
      obtain res' out' where r: "r = (res', out')" by (cases r)
      with Inr \<open>convert lib val = Inr d\<close> kv hf Cons.IH [of res' out'] show ?thesis
        by (auto simp: compiles_def rebind_def)
    qed
  next
    case (Inl e)
    show ?thesis
    proof (cases "e = KeyError")
      case True
      with Inl have hf: "\<not> has_fields val" using convert_KeyError_iff [of lib val] by auto
      show ?thesis
      proof (cases "extract_domains lib ds")
        case Inl2: (Inl e')
        with Inl True kv hf Cons.IH show ?thesis by (auto simp: compiles_def rebind_def)
      next
        case (Inr r)
        obtain res' out' where r: "r = (res', out')" by (cases r)
        with Inr Inl True kv hf Cons.IH [of res' out'] show ?thesis
          by (auto simp: compiles_def rebind_def)
      qed
    next
      case False
      with Inl kv show ?thesis by (cases e) (auto simp: compiles_def)
    qed
  qed
qed


section \<open>Facts about the sweep loop\<close>

lemma for_links_trace:
  "filter uses_session (snd (for_links check links (k, tr)))
     = filter uses_session tr @ map CheckStock links"
  by (induction links arbitrary: k tr) simp_all

lemma main_loop_trace:
  "filter uses_session (snd (main_loop check links n st))
     = filter uses_session (snd st) @ concat (replicate n (map CheckStock links @ [DeleteCookies]))"
proof (induction n arbitrary: st)
  case 0
  show ?case by simp
next
  case (Suc n)
  obtain k tr where st: "st = (k, tr)" by (cases st)
  obtain k' tr' where fl: "for_links check links (k, tr) = (k', tr')" by (cases "for_links check links (k, tr)")
  have "filter uses_session tr' = filter uses_session tr @ map CheckStock links"
    using for_links_trace [of check links k tr] fl by simp
  then show ?case using st fl Suc.IH [of "(k', tr' @ [DeleteCookies])"] by simp
qed


section \<open>The claims\<close>

subsection \<open>Narrowing by class, then searching the value\<close>

text \<open>
  Claim C1, as the code has it. With a policy whose class is \<open>price\<close> and whose value was
  configured as \<open>SOLD\<close>, \<open>check_stock\<close> returns without raising and prints nothing. Its verdict
  is true exactly when the first element in document order that bears the class \<open>price\<close>
  has, somewhere below it, a string node containing \<open>SOLD\<close>. When no element bears the
  class the verdict is false, whatever text the rest of the document holds.
\<close>

theorem price_sold_first_element:
  assumes "map_of domains domain_name = Some (Converted d)"
      and "class' d = Some ''price''"
      and "re_compile lib (''.*'' @ ''SOLD'' @ ''.*'') = Inr p"
      and "value' d = Some p"
  shows "\<exists>b. check_stock domains domain_name soup = Inr (b, [])
           \<and> (b \<longleftrightarrow> (\<exists>i<length (descendants soup).
                      has_class ''price'' (descendants soup ! i)
                    \<and> (\<forall>j<i. \<not> has_class ''price'' (descendants soup ! j))
                    \<and> (\<exists>s. NavigableString s \<in> set (descendants (descendants soup ! i))
                          \<and> sublist ''SOLD'' s)))
           \<and> ((\<forall>n\<in>set (descendants soup). \<not> has_class ''price'' n) \<longrightarrow> \<not> b)"
proof -
  have p: "p = Fragment (Star Dot # map (\<lambda>c. Once (Lit c)) ''SOLD'' @ [Star Dot])"
    using assms(3) compile_wrapped [of "''SOLD''" lib] by (simp add: special_def)
  have ft: "find_text p e \<noteq> None \<longleftrightarrow>
      (\<exists>s. NavigableString s \<in> set (descendants e) \<and> sublist ''SOLD'' s)" for e
    unfolding find_text_iff p search_contains ..
  let ?b = "search_value d (find_class ''price'' soup) \<noteq> None"
  have cs: "check_stock domains domain_name soup = Inr (?b, [])"
    using check_stock_class [OF assms(1,2)] by simp
  have first: "?b \<longleftrightarrow> (\<exists>i<length (descendants soup).
                      has_class ''price'' (descendants soup ! i)
                    \<and> (\<forall>j<i. \<not> has_class ''price'' (descendants soup ! j))
                    \<and> (\<exists>s. NavigableString s \<in> set (descendants (descendants soup ! i))
                          \<and> sublist ''SOLD'' s))"
  proof (cases "find_class ''price'' soup")
    case None
    then have "\<forall>n\<in>set (descendants soup). \<not> has_class ''price'' n"
      by (auto simp: find_class_def find_None_iff)
    then have "\<forall>i<length (descendants soup). \<not> has_class ''price'' (descendants soup ! i)"
      by simp
    with None show ?thesis by (auto simp: search_value_def)
  next
    case (Some e)
    then obtain i where i: "i < length (descendants soup)" "has_class ''price'' (descendants soup ! i)"
        "e = descendants soup ! i" "\<forall>j<i. \<not> has_class ''price'' (descendants soup ! j)"
      by (auto simp: find_class_def find_Some_iff)
    have uniq: "k = i" if "k < length (descendants soup)" "has_class ''price'' (descendants soup ! k)"
        "\<forall>j<k. \<not> has_class ''price'' (descendants soup ! j)" for k
      using that i by (meson linorder_neqE_nat)
    have "?b \<longleftrightarrow> find_text p e \<noteq> None"
      using Some assms(4) by (simp add: search_value_def)
    also have "\<dots> \<longleftrightarrow> (\<exists>s. NavigableString s \<in> set (descendants e) \<and> sublist ''SOLD'' s)"
      by (rule ft)
    finally show ?thesis using i uniq by blast
  qed
  have absent: "(\<forall>n\<in>set (descendants soup). \<not> has_class ''price'' n) \<longrightarrow> \<not> ?b"
    using first by auto
  show ?thesis using cs first absent by blast
qed

text \<open>
  An instance: a page with \<open>SOLD\<close> in its title and no \<open>price\<close> element.
\<close>

theorem price_sold_first_element_witness:
  "map_of [(''shop.example.com'', Converted price_sold)] ''shop.example.com'' = Some (Converted price_sold)
   \<and> class' price_sold = Some ''price''
   \<and> re_compile unused_library (''.*'' @ ''SOLD'' @ ''.*'') = Inr sold_pattern
   \<and> value' price_sold = Some sold_pattern
   \<and> find_class ''price'' sold_elsewhere = None
   \<and> check_stock [(''shop.example.com'', Converted price_sold)] ''shop.example.com'' sold_elsewhere
       = Inr (False, [])"
proof -
  have h1: "map_of [(''shop.example.com'', Converted price_sold)] ''shop.example.com''
      = Some (Converted price_sold)" by simp
  have h2: "class' price_sold = Some ''price''" by (simp add: price_sold_def)
  have h3: "re_compile unused_library (''.*'' @ ''SOLD'' @ ''.*'') = Inr sold_pattern"
    by (simp add: re_compile_def sold_pattern_def attach_def atom_of_def unmodelled_def special_def)
  have h4: "value' price_sold = Some sold_pattern" by (simp add: price_sold_def)
  have none: "find_class ''price'' sold_elsewhere = None"
    by (simp add: find_class_def sold_elsewhere_def)
  have absent: "\<forall>n\<in>set (descendants sold_elsewhere). \<not> has_class ''price'' n"
    by (simp add: sold_elsewhere_def)
  from price_sold_first_element [OF h1 h2 h3 h4, of sold_elsewhere]
  obtain b where b: "check_stock [(''shop.example.com'', Converted price_sold)] ''shop.example.com''
        sold_elsewhere = Inr (b, [])"
      "(\<forall>n\<in>set (descendants sold_elsewhere). \<not> has_class ''price'' n) \<longrightarrow> \<not> b"
    by blast
  from b(2) absent have "\<not> b" by (rule mp)
  with b(1)
  have "check_stock [(''shop.example.com'', Converted price_sold)] ''shop.example.com'' sold_elsewhere
       = Inr (False, [])" by simp
  with h1 h2 h3 h4 none show ?thesis by blast
qed

text \<open>
  The first \<open>price\<close> element decides alone. On a page with two of them, where only the
  second holds \<open>SOLD\<close>, the verdict is false although an element with the class and the
  text exists.
\<close>

theorem any_price_element_counterexample:
  "extract_domains unused_library
      [(''shop.example.com'', [(''class_'', Some ''price''), (''id_'', None), (''value_'', Some ''SOLD'')])]
     = Inr ([(''shop.example.com'', Converted price_sold)], [])
   \<and> check_stock [(''shop.example.com'', Converted price_sold)] ''shop.example.com'' two_prices
       = Inr (False, [])
   \<and> Tag [''price''] None [NavigableString ''SOLD''] \<in> set (descendants two_prices)
   \<and> has_class ''price'' (Tag [''price''] None [NavigableString ''SOLD''])
   \<and> find_text sold_pattern (Tag [''price''] None [NavigableString ''SOLD''])
       = Some (NavigableString ''SOLD'')"
  by (simp add: convert_def subscript_def re_compile_def attach_def atom_of_def unmodelled_def
      special_def price_sold_def sold_pattern_def check_stock_def truthy_def narrow_def
      search_value_def find_class_def find_text_def two_prices_def)

subsection \<open>The stabilisation loop\<close>

text \<open>
  Claim C2, as the code has it. Each pass of the loop takes two fresh reads and compares
  only those two. When the first two reads are \<open>A, A\<close> the loop returns after one pair,
  two reads. When the first four reads are \<open>A, B, B, B\<close>, with \<open>A\<close> and \<open>B\<close> hashing
  differently, it returns after two pairs, four reads: the second pair is the third
  and the fourth read. The markup returned is the page source read after the loop.
\<close>

theorem poll_compares_fresh_pairs:
  "(innerHTML (driver 0) = A \<and> innerHTML (driver 1) = A \<longrightarrow>
      poll hash driver (Str ''empty'') (Str []) 0 = Some 2
      \<and> get_loaded_page hash driver = Some (page_source (driver 2)))
   \<and> (innerHTML (driver 0) = A \<and> innerHTML (driver 1) = B \<and> innerHTML (driver 2) = B
        \<and> innerHTML (driver 3) = B \<and> hash A \<noteq> hash B \<longrightarrow>
      poll hash driver (Str ''empty'') (Str []) 0 = Some 4
      \<and> get_loaded_page hash driver = Some (page_source (driver 4)))"
proof -
  have one: "poll hash driver (Str ''empty'') (Str []) 0 = Some 2"
    if "innerHTML (driver 0) = A" "innerHTML (driver 1) = A"
  proof -
    from that have "stable_at hash driver 0" by (simp add: stable_at_def)
    from poll_returns [OF this] show ?thesis by simp
  qed
  have two: "poll hash driver (Str ''empty'') (Str []) 0 = Some 4"
    if "innerHTML (driver 0) = A" "innerHTML (driver 1) = B" "innerHTML (driver 2) = B"
       "innerHTML (driver 3) = B" "hash A \<noteq> hash B"
  proof -
    from that have s1: "stable_at hash driver 1" by (simp add: stable_at_def numeral_3_eq_3)
    from that have "\<not> stable_at hash driver 0" by (simp add: stable_at_def)
    then have "\<forall>j<1. \<not> stable_at hash driver j" by simp
    from poll_returns [OF s1 this] show ?thesis by simp
  qed
  show ?thesis using one two by (simp add: get_loaded_page_def)
qed

text \<open>
  Instances: a page that is settled from the start, and one that settles at its second read.
\<close>

theorem poll_compares_fresh_pairs_witness:
  "innerHTML (session_settled 0) = ''In Stock'' \<and> innerHTML (session_settled 1) = ''In Stock''
   \<and> poll length_hash session_settled (Str ''empty'') (Str []) 0 = Some 2
   \<and> get_loaded_page length_hash session_settled = Some ''<html>In Stock</html>''
   \<and> innerHTML (session_ABBB 0) = ''loading'' \<and> innerHTML (session_ABBB 1) = ''In Stock''
   \<and> innerHTML (session_ABBB 2) = ''In Stock'' \<and> innerHTML (session_ABBB 3) = ''In Stock''
   \<and> length_hash ''loading'' \<noteq> length_hash ''In Stock''
   \<and> poll length_hash session_ABBB (Str ''empty'') (Str []) 0 = Some 4
   \<and> get_loaded_page length_hash session_ABBB = Some ''<html>In Stock</html>''"
  using poll_compares_fresh_pairs
      [where driver = session_settled and hash = length_hash and A = "''In Stock''"]
    poll_compares_fresh_pairs
      [where driver = session_ABBB and hash = length_hash and A = "''loading''" and B = "''In Stock''"]
  by (simp add: session_settled_def session_ABBB_def page_of_def length_hash_def)

text \<open>
  A read is not kept as the baseline of the next pass. When the reads are
  \<open>loading, In Stock, In Stock\<close> and then \<open>Sold Out!\<close>, the second and third reads are equal
  but are never compared: the loop takes three pairs, six reads, and returns the later page.
\<close>

theorem third_read_not_baseline_counterexample:
  "innerHTML (session_ABBC 0) = ''loading'' \<and> innerHTML (session_ABBC 1) = ''In Stock''
   \<and> innerHTML (session_ABBC 2) = ''In Stock''
   \<and> length_hash ''loading'' \<noteq> length_hash ''In Stock''
   \<and> poll length_hash session_ABBC (Str ''empty'') (Str []) 0 = Some 6
   \<and> get_loaded_page length_hash session_ABBC = Some ''<html>Sold Out!</html>''"
  by (simp add: get_loaded_page_def poll.simps get_page_hash_def session_ABBC_def page_of_def
      length_hash_def)

subsection \<open>Class before id\<close>

text \<open>
  Claim C3. When a policy has both a class and an id (non-empty strings), and no element
  of the page bears the class while some element has the id, \<open>check_stock\<close> returns false:
  the scope is narrowed by the class alone.
\<close>

theorem class_takes_priority:
  assumes "map_of domains domain_name = Some (Converted d)"
      and "class' d = Some c" and "c \<noteq> []"
      and "id' d = Some v" and "v \<noteq> []"
      and "\<forall>n\<in>set (descendants soup). \<not> has_class c n"
      and "\<exists>n\<in>set (descendants soup). has_id v n"
  shows "check_stock domains domain_name soup = Inr (False, [])"
proof -
  have "find_class c soup = None" using assms(6) by (auto simp: find_class_def find_None_iff)
  then show ?thesis using check_stock_class [OF assms(1,2,3), of soup]
    by (simp add: search_value_def)
qed

text \<open>
  An instance: the class \<open>stock\<close> is absent and the id \<open>buy\<close> is present.
\<close>

theorem class_takes_priority_witness:
  "map_of [(''shop.example.com'', Converted \<lparr>class' = Some ''stock'', id' = Some ''buy'', value' = None\<rparr>)]
      ''shop.example.com''
     = Some (Converted \<lparr>class' = Some ''stock'', id' = Some ''buy'', value' = None\<rparr>)
   \<and> find_class ''stock'' (Tag [] None [Tag [''oos''] (Some ''buy'') [NavigableString ''Out'']]) = None
   \<and> find_id ''buy'' (Tag [] None [Tag [''oos''] (Some ''buy'') [NavigableString ''Out'']])
       = Some (Tag [''oos''] (Some ''buy'') [NavigableString ''Out''])
   \<and> check_stock
        [(''shop.example.com'', Converted \<lparr>class' = Some ''stock'', id' = Some ''buy'', value' = None\<rparr>)]
        ''shop.example.com'' (Tag [] None [Tag [''oos''] (Some ''buy'') [NavigableString ''Out'']])
       = Inr (False, [])"
proof -
  let ?d = "\<lparr>class' = Some ''stock'', id' = Some ''buy'', value' = None\<rparr>"
  let ?soup = "Tag [] None [Tag [''oos''] (Some ''buy'') [NavigableString ''Out'']]"
  have h1: "map_of [(''shop.example.com'', Converted ?d)] ''shop.example.com'' = Some (Converted ?d)"
    by simp
  have h6: "\<forall>n\<in>set (descendants ?soup). \<not> has_class ''stock'' n" by simp
  have h7: "\<exists>n\<in>set (descendants ?soup). has_id ''buy'' n" by simp
  have c: "find_class ''stock'' ?soup = None" by (simp add: find_class_def)
  have i: "find_id ''buy'' ?soup = Some (Tag [''oos''] (Some ''buy'') [NavigableString ''Out''])"
    by (simp add: find_id_def)
  have "check_stock [(''shop.example.com'', Converted ?d)] ''shop.example.com'' ?soup = Inr (False, [])"
    by (rule class_takes_priority [where c = "''stock''" and v = "''buy''", OF h1 _ _ _ _ h6 h7])
      simp_all
  with h1 c i show ?thesis by blast
qed

subsection \<open>The value pattern\<close>

text \<open>
  Claim C4, as the code has it. A configured value made of ordinary characters only
  (none of the special characters of \<open>re\<close>) is converted to a pattern that matches a
  string node exactly when the value occurs in its text as a contiguous part, with the
  case of the letters as written.
\<close>

theorem value_pattern_contains:
  assumes "\<forall>ch\<in>set raw. \<not> special ch"
  shows "\<exists>p. convert lib [(''class_'', c), (''id_'', i), (''value_'', Some raw)]
                = Inr \<lparr>class' = c, id' = i, value' = Some p\<rparr>
             \<and> (\<forall>s. text_matches p (NavigableString s) \<longleftrightarrow> sublist raw s)"
proof -
  let ?p = "Fragment (Star Dot # map (\<lambda>c. Once (Lit c)) raw @ [Star Dot])"
  have "re_compile lib (''.*'' @ raw @ ''.*'') = Inr ?p" by (rule compile_wrapped [OF assms])
  then have "convert lib [(''class_'', c), (''id_'', i), (''value_'', Some raw)]
      = Inr \<lparr>class' = c, id' = i, value' = Some ?p\<rparr>"
    by (simp add: convert_def subscript_def)
  moreover have "\<forall>s. text_matches ?p (NavigableString s) \<longleftrightarrow> sublist raw s"
    by (simp only: text_matches.simps search_contains) simp
  ultimately show ?thesis by blast
qed

text \<open>
  An instance: the value \<open>5\<close> and the text \<open>Qty: 15 left\<close>.
\<close>

theorem value_pattern_contains_witness:
  "\<not> special CHR ''5'' \<and> sublist ''5'' ''Qty: 15 left''
   \<and> (\<exists>p. convert unused_library [(''class_'', None), (''id_'', None), (''value_'', Some ''5'')]
                = Inr \<lparr>class' = None, id' = None, value' = Some p\<rparr>
          \<and> text_matches p (NavigableString ''Qty: 15 left''))"
proof -
  have h: "\<forall>ch\<in>set ''5''. \<not> special ch" by (simp add: special_def)
  have s: "sublist ''5'' ''Qty: 15 left''" by (simp add: sublist_Cons_right)
  have o: "\<not> special CHR ''5''" by (simp add: special_def)
  from value_pattern_contains [OF h, of unused_library None None] s o show ?thesis by blast
qed

text \<open>
  The value is compiled as a regular expression. Configured as a single dot it matches
  the text \<open>x\<close>, which does not contain a dot.
\<close>

theorem value_pattern_regex_counterexample:
  "convert unused_library [(''class_'', None), (''id_'', None), (''value_'', Some ''.'')]
     = Inr \<lparr>class' = None, id' = None, value' = Some (Fragment [Star Dot, Once Dot, Star Dot])\<rparr>
   \<and> text_matches (Fragment [Star Dot, Once Dot, Star Dot]) (NavigableString ''x'')
   \<and> \<not> sublist ''.'' ''x''"
  by (simp add: convert_def subscript_def re_compile_def attach_def atom_of_def unmodelled_def
      special_def sublist_Cons_right)

subsection \<open>Configuration defects\<close>

text \<open>
  Claim C5. When the host has no entry in the dictionary, or its policy has no class,
  no id and no value, \<open>check_stock\<close> returns false and prints one line that names the
  host, whatever the page holds.
\<close>

theorem check_stock_configuration_defect:
  "(map_of domains domain_name = None \<longrightarrow>
      check_stock domains domain_name soup
        = Inr (False, [''Search information for domain: '' @ domain_name @ '' not provided.'']))
   \<and> (map_of domains domain_name = Some (Converted d)
        \<and> \<not> truthy (class' d) \<and> \<not> truthy (id' d) \<and> value' d = None \<longrightarrow>
      check_stock domains domain_name soup
        = Inr (False,
            [''You must provide at least one class, id, or string value to search for on ''
               @ domain_name]))"
  by (simp add: check_stock_def not_provided_def must_provide_def)

text \<open>
  Instances: an empty dictionary, and a policy whose only field is an empty id.
\<close>

theorem check_stock_configuration_defect_witness:
  "map_of [] ''shop.example.com'' = (None :: entry option)
   \<and> check_stock [] ''shop.example.com'' (Tag [] None [Tag [''stock''] None [NavigableString ''In Stock'']])
       = Inr (False, [''Search information for domain: shop.example.com not provided.''])
   \<and> map_of [(''shop.example.com'', Converted \<lparr>class' = None, id' = Some [], value' = None\<rparr>)]
        ''shop.example.com''
       = Some (Converted \<lparr>class' = None, id' = Some [], value' = None\<rparr>)
   \<and> check_stock [(''shop.example.com'', Converted \<lparr>class' = None, id' = Some [], value' = None\<rparr>)]
        ''shop.example.com'' (Tag [] None [Tag [''stock''] None [NavigableString ''In Stock'']])
       = Inr (False,
           [''You must provide at least one class, id, or string value to search for on shop.example.com''])"
  using check_stock_configuration_defect
      [where domains = "[]" and domain_name = "''shop.example.com''"
         and soup = "Tag [] None [Tag [''stock''] None [NavigableString ''In Stock'']]"]
    check_stock_configuration_defect
      [where domains = "[(''shop.example.com'',
                          Converted \<lparr>class' = None, id' = Some [], value' = None\<rparr>)]"
         and domain_name = "''shop.example.com''"
         and d = "\<lparr>class' = None, id' = Some [], value' = None\<rparr>"
         and soup = "Tag [] None [Tag [''stock''] None [NavigableString ''In Stock'']]"]
  by (simp add: truthy_def)


subsection \<open>No bound on the polling\<close>

text \<open>
  Claim C6. The loop has no iteration bound: it never returns exactly when no pass reads
  two samples with equal hashes, and when pass \<open>k\<close> is the first with equal hashes it
  returns after \<open>k + 1\<close> passes, however large \<open>k\<close> is. \<open>get_loaded_page\<close> returns when the
  loop does.
\<close>

theorem poll_unbounded:
  "(poll hash driver (Str ''empty'') (Str []) 0 = None \<longleftrightarrow> (\<forall>k. \<not> stable_at hash driver k))
   \<and> (\<forall>k. stable_at hash driver k \<and> (\<forall>j<k. \<not> stable_at hash driver j)
          \<longrightarrow> poll hash driver (Str ''empty'') (Str []) 0 = Some (2 * k + 2))
   \<and> (get_loaded_page hash driver = None \<longleftrightarrow> (\<forall>k. \<not> stable_at hash driver k))"
proof -
  have a: "poll hash driver (Str ''empty'') (Str []) 0 = None \<longleftrightarrow> (\<forall>k. \<not> stable_at hash driver k)"
  proof
    assume n: "poll hash driver (Str ''empty'') (Str []) 0 = None"
    show "\<forall>k. \<not> stable_at hash driver k"
    proof (rule ccontr)
      assume "\<not> (\<forall>k. \<not> stable_at hash driver k)"
      then obtain k where "stable_at hash driver k" by blast
      from first_stable [OF this] obtain m where
        "stable_at hash driver m" "\<forall>j<m. \<not> stable_at hash driver j" by blast
      from poll_returns [OF this] n show False by simp
    qed
  next
    assume "\<forall>k. \<not> stable_at hash driver k"
    then show "poll hash driver (Str ''empty'') (Str []) 0 = None" by (rule poll_diverges)
  qed
  have b: "\<forall>k. stable_at hash driver k \<and> (\<forall>j<k. \<not> stable_at hash driver j)
          \<longrightarrow> poll hash driver (Str ''empty'') (Str []) 0 = Some (2 * k + 2)"
    using poll_returns by blast
  have c: "get_loaded_page hash driver = None \<longleftrightarrow> poll hash driver (Str ''empty'') (Str []) 0 = None"
    by (simp add: get_loaded_page_def split: option.splits)
  show ?thesis using a b c by simp
qed

text \<open>
  Instances: a page that grows at every read is polled for ever; a page that settles at
  its second read is returned after two passes.
\<close>

theorem poll_unbounded_witness:
  "(\<forall>k. \<not> stable_at length_hash session_growing k)
   \<and> poll length_hash session_growing (Str ''empty'') (Str []) 0 = None
   \<and> get_loaded_page length_hash session_growing = None
   \<and> stable_at length_hash session_ABBB 1 \<and> \<not> stable_at length_hash session_ABBB 0
   \<and> poll length_hash session_ABBB (Str ''empty'') (Str []) 0 = Some 4"
proof -
  have never: "\<forall>k. \<not> stable_at length_hash session_growing k"
    by (simp add: stable_at_def session_growing_def page_of_def length_hash_def)
  have s1: "stable_at length_hash session_ABBB 1"
    by (simp add: stable_at_def session_ABBB_def page_of_def length_hash_def)
  have s0: "\<forall>j<1. \<not> stable_at length_hash session_ABBB j"
    by (simp add: stable_at_def session_ABBB_def page_of_def length_hash_def)
  from poll_unbounded [of length_hash session_growing] never
  have "poll length_hash session_growing (Str ''empty'') (Str []) 0 = None"
    "get_loaded_page length_hash session_growing = None" by simp_all
  moreover from poll_unbounded [of length_hash session_ABBB]
  have "stable_at length_hash session_ABBB 1 \<and> (\<forall>j<1. \<not> stable_at length_hash session_ABBB j)
      \<longrightarrow> poll length_hash session_ABBB (Str ''empty'') (Str []) 0 = Some (2 * 1 + 2)"
    by blast
  with s1 s0 have "poll length_hash session_ABBB (Str ''empty'') (Str []) 0 = Some 4" by simp
  ultimately show ?thesis using never s1 s0 by simp
qed

subsection \<open>An entry left unconverted\<close>

text \<open>
  Claim C7 at a raw record with wrong field names. \<open>extract_domains\<close> prints the
  formatting error and leaves the record bound to its host; \<open>check_stock\<close> then reads the
  attribute \<open>class_\<close> of that record and raises \<open>AttributeError\<close>.
\<close>

theorem unconverted_entry_raises:
  "extract_domains lib [(''shop.example.com'', [(''class'', Some ''stock'')])]
     = Inr ([(''shop.example.com'', Raw [(''class'', Some ''stock'')])],
            [''Domain formatting error in pages.json.''])
   \<and> check_stock [(''shop.example.com'', Raw [(''class'', Some ''stock'')])] ''shop.example.com''
        (Tag [] None [Tag [''stock''] None [NavigableString ''In Stock'']])
       = Inl AttributeError"
  by (simp add: convert_def subscript_def formatting_error_def check_stock_def)

subsection \<open>Skipping malformed entries\<close>

text \<open>
  Claim C8, as the code has it. When \<open>re.compile\<close> rejects no value that is reached,
  \<open>extract_domains\<close> returns; every entry with the three field names is bound to a
  \<open>Domain\<close> holding its class and its id, with a pattern exactly when the value is not
  null; every entry lacking a field name stays bound to its raw record; and one
  formatting error is printed for each such entry.
\<close>

theorem extract_domains_skips_and_continues:
  assumes "\<forall>kv\<in>set ds. compiles lib (snd kv)"
  shows "\<exists>res out. extract_domains lib ds = Inr (res, out)
           \<and> length res = length ds
           \<and> (\<forall>i<length ds.
                 (has_fields (snd (ds ! i)) \<longrightarrow>
                    (\<exists>d. res ! i = (fst (ds ! i), Converted d)
                        \<and> map_of (snd (ds ! i)) ''class_'' = Some (class' d)
                        \<and> map_of (snd (ds ! i)) ''id_'' = Some (id' d)
                        \<and> (map_of (snd (ds ! i)) ''value_'' = Some None \<longleftrightarrow> value' d = None)))
               \<and> (\<not> has_fields (snd (ds ! i)) \<longrightarrow> res ! i = (fst (ds ! i), Raw (snd (ds ! i)))))
           \<and> out = replicate (length (filter (\<lambda>kv. \<not> has_fields (snd kv)) ds)) formatting_error"
proof -
  let ?out = "replicate (length (filter (\<lambda>kv. \<not> has_fields (snd kv)) ds)) formatting_error"
  have ex: "extract_domains lib ds = Inr (map (rebind lib) ds, ?out)"
    using assms by (simp add: extract_domains_shape)
  have each: "(has_fields (snd (ds ! i)) \<longrightarrow>
                    (\<exists>d. map (rebind lib) ds ! i = (fst (ds ! i), Converted d)
                        \<and> map_of (snd (ds ! i)) ''class_'' = Some (class' d)
                        \<and> map_of (snd (ds ! i)) ''id_'' = Some (id' d)
                        \<and> (map_of (snd (ds ! i)) ''value_'' = Some None \<longleftrightarrow> value' d = None)))
               \<and> (\<not> has_fields (snd (ds ! i)) \<longrightarrow> map (rebind lib) ds ! i = (fst (ds ! i), Raw (snd (ds ! i))))"
    if i: "i < length ds" for i
  proof (cases "convert lib (snd (ds ! i))")
    case (Inr d)
    then have "has_fields (snd (ds ! i))" using convert_KeyError_iff [of lib "snd (ds ! i)"] by auto
    with Inr i convert_fields [OF Inr] show ?thesis by (simp add: rebind_def)
  next
    case (Inl e)
    from i assms have "compiles lib (snd (ds ! i))" by simp
    with Inl have "e = KeyError" by (cases e) (simp_all add: compiles_def)
    with Inl have "\<not> has_fields (snd (ds ! i))" using convert_KeyError_iff [of lib "snd (ds ! i)"] by simp
    with Inl i show ?thesis by (simp add: rebind_def)
  qed
  show ?thesis using ex each by simp
qed

text \<open>
  An instance: a record with wrong field names followed by a well-formed one.
\<close>

theorem extract_domains_skips_and_continues_witness:
  "compiles unused_library wrong_names \<and> compiles unused_library stock_class
   \<and> \<not> has_fields wrong_names \<and> has_fields stock_class
   \<and> (\<exists>res out.
         extract_domains unused_library
           [(''a.example.com'', wrong_names), (''b.example.com'', stock_class)]
           = Inr (res, out)
       \<and> res ! 0 = (''a.example.com'', Raw wrong_names)
       \<and> (\<exists>d. res ! 1 = (''b.example.com'', Converted d) \<and> class' d = Some ''stock'')
       \<and> out = [formatting_error])"
proof -
  let ?ds = "[(''a.example.com'', wrong_names), (''b.example.com'', stock_class)]"
  have h: "\<forall>kv\<in>set ?ds. compiles unused_library (snd kv)"
    by (simp add: compiles_def convert_def subscript_def wrong_names_def stock_class_def)
  have f: "\<not> has_fields wrong_names" "has_fields stock_class"
    by (simp_all add: has_fields_def wrong_names_def stock_class_def)
  have c: "map_of stock_class ''class_'' = Some (Some ''stock'')" by (simp add: stock_class_def)
  from extract_domains_skips_and_continues [OF h] obtain res out where
    r: "extract_domains unused_library ?ds = Inr (res, out)"
    and each: "\<forall>i<length ?ds.
                 (has_fields (snd (?ds ! i)) \<longrightarrow>
                    (\<exists>d. res ! i = (fst (?ds ! i), Converted d)
                        \<and> map_of (snd (?ds ! i)) ''class_'' = Some (class' d)
                        \<and> map_of (snd (?ds ! i)) ''id_'' = Some (id' d)
                        \<and> (map_of (snd (?ds ! i)) ''value_'' = Some None \<longleftrightarrow> value' d = None)))
               \<and> (\<not> has_fields (snd (?ds ! i)) \<longrightarrow> res ! i = (fst (?ds ! i), Raw (snd (?ds ! i))))"
    and out: "out = replicate (length (filter (\<lambda>kv. \<not> has_fields (snd kv)) ?ds)) formatting_error"
    by blast
  from each [rule_format, of 0] f have r0: "res ! 0 = (''a.example.com'', Raw wrong_names)" by simp
  from each [rule_format, of 1] f c
  have r1: "\<exists>d. res ! 1 = (''b.example.com'', Converted d) \<and> class' d = Some ''stock''" by auto
  from out f have o: "out = [formatting_error]" by simp
  from h have "compiles unused_library wrong_names" "compiles unused_library stock_class"
    by simp_all
  with f r r0 r1 o show ?thesis by blast
qed

text \<open>
  Only \<open>KeyError\<close> is caught. A value that is not a regular expression, here a single
  star, makes \<open>re.compile\<close> raise; the exception leaves \<open>extract_domains\<close> and the
  well-formed entry after it is never converted.
\<close>

theorem bad_pattern_aborts_construction_counterexample:
  "has_fields star_value \<and> has_fields stock_class
   \<and> extract_domains unused_library
        [(''a.example.com'', star_value), (''b.example.com'', stock_class)]
       = Inl ReError"
  by (simp add: has_fields_def star_value_def stock_class_def convert_def subscript_def
      re_compile_def attach_def unmodelled_def special_def)

subsection \<open>Cookies and sweeps\<close>

text \<open>
  Claim C9. Of the events that touch the render session, \<open>n\<close> passes of the main loop
  produce \<open>n\<close> times the same run: one check per configured link, in order, and then one
  deletion of the cookies. Cookies are deleted once per sweep, after its last link and
  before the first link of the next sweep, never between two links of a sweep.
\<close>

theorem cookies_deleted_once_per_sweep:
  "filter uses_session (snd (main_loop check links n (0, [])))
     = concat (replicate n (map CheckStock links @ [DeleteCookies]))"
  using main_loop_trace [of check links n "(0, [])"] by simp

text \<open>
  An instance: two links, two sweeps, every check finding the item out of stock.
\<close>

theorem cookies_deleted_once_per_sweep_witness:
  "filter uses_session
     (snd (main_loop (\<lambda>k link. False) [''https://a.example.com/x'', ''https://b.example.com/y'']
        (Suc (Suc 0)) (0, [])))
   = [CheckStock ''https://a.example.com/x'', CheckStock ''https://b.example.com/y'', DeleteCookies,
      CheckStock ''https://a.example.com/x'', CheckStock ''https://b.example.com/y'', DeleteCookies]"
  using cookies_deleted_once_per_sweep
      [of "\<lambda>k link. False" "[''https://a.example.com/x'', ''https://b.example.com/y'']" "Suc (Suc 0)"]
  by simp

subsection \<open>The keys of the dictionary\<close>

text \<open>
  Claim C10, as the code has it. Whenever \<open>extract_domains\<close> returns, the dictionary it
  returns has the keys of its input, in the same order, and every key whose record was
  not converted is still bound to that raw record. It returns exactly when \<open>re.compile\<close>
  rejects no value that is reached.
\<close>

theorem extract_domains_same_keys:
  "(extract_domains lib ds = Inr (res, out) \<longrightarrow>
      map fst res = map fst ds
      \<and> (\<forall>i<length ds. (\<forall>d. convert lib (snd (ds ! i)) \<noteq> Inr d) \<longrightarrow>
             res ! i = (fst (ds ! i), Raw (snd (ds ! i)))))
   \<and> ((\<exists>res out. extract_domains lib ds = Inr (res, out))
        \<longleftrightarrow> (\<forall>kv\<in>set ds. compiles lib (snd kv)))"
proof -
  have a: "map fst res = map fst ds
      \<and> (\<forall>i<length ds. (\<forall>d. convert lib (snd (ds ! i)) \<noteq> Inr d) \<longrightarrow>
             res ! i = (fst (ds ! i), Raw (snd (ds ! i))))"
    if "extract_domains lib ds = Inr (res, out)"
  proof -
    from that have res: "res = map (rebind lib) ds" by (simp add: extract_domains_shape)
    have "map fst (map (rebind lib) ds) = map fst ds" by (simp add: rebind_def comp_def)
    moreover have "map (rebind lib) ds ! i = (fst (ds ! i), Raw (snd (ds ! i)))"
      if "i < length ds" "\<forall>d. convert lib (snd (ds ! i)) \<noteq> Inr d" for i
      using that by (cases "convert lib (snd (ds ! i))") (simp_all add: rebind_def)
    ultimately show ?thesis using res by simp
  qed
  have b: "(\<exists>res out. extract_domains lib ds = Inr (res, out))
        \<longleftrightarrow> (\<forall>kv\<in>set ds. compiles lib (snd kv))"
    by (simp add: extract_domains_shape)
  show ?thesis using a b by blast
qed

text \<open>
  An instance: the record with wrong field names keeps its key and its raw record.
\<close>

theorem extract_domains_same_keys_witness:
  "compiles unused_library wrong_names \<and> compiles unused_library stock_class
   \<and> extract_domains unused_library
        [(''a.example.com'', wrong_names), (''b.example.com'', stock_class)]
       = Inr ([(''a.example.com'', Raw wrong_names),
               (''b.example.com'', Converted \<lparr>class' = Some ''stock'', id' = None, value' = None\<rparr>)],
              [formatting_error])
   \<and> map fst [(''a.example.com'', Raw wrong_names),
               (''b.example.com'', Converted \<lparr>class' = Some ''stock'', id' = None, value' = None\<rparr>)]
       = map fst [(''a.example.com'', wrong_names), (''b.example.com'', stock_class)]"
proof -
  let ?ds = "[(''a.example.com'', wrong_names), (''b.example.com'', stock_class)]"
  let ?res = "[(''a.example.com'', Raw wrong_names),
               (''b.example.com'', Converted \<lparr>class' = Some ''stock'', id' = None, value' = None\<rparr>)]"
  have h: "\<forall>kv\<in>set ?ds. compiles unused_library (snd kv)"
    by (simp add: compiles_def convert_def subscript_def wrong_names_def stock_class_def)
  have e: "extract_domains unused_library ?ds = Inr (?res, [formatting_error])"
    by (simp add: convert_def subscript_def wrong_names_def stock_class_def)
  from extract_domains_same_keys [of unused_library ?ds ?res "[formatting_error]"] e
  have k: "map fst ?res = map fst ?ds" by blast
  from h have "compiles unused_library wrong_names" "compiles unused_library stock_class"
    by simp_all
  with e k show ?thesis by blast
qed

text \<open>
  On a value that is not a regular expression \<open>extract_domains\<close> raises and returns
  no dictionary.
\<close>

theorem extract_domains_raises_counterexample:
  "extract_domains unused_library [(''shop.example.com'', star_value)] = Inl ReError"
  by (simp add: star_value_def convert_def subscript_def re_compile_def attach_def unmodelled_def
      special_def)

end
